theory Spec2Isabelle
  imports Main "HOL-Library.Word" "HOL-Library.Multiset"
begin

unbundle bit_operations_syntax

section \<open>Data model\<close>

text \<open>
  Each node keeps its pages in a table with the columns \<open>page_id\<close>, \<open>data\<close> and
  \<open>access_count\<close>. Rows are only ever added under the label \<open>len(self.memory)\<close>, so
  the labels of a table with \<open>n\<close> rows are \<open>0, ..., n - 1\<close> in row order: the table is a
  list of rows and a row's label is its position. Page identifiers and payloads are
  Python strings that the page store only compares for equality. Once a row is stored,
  the \<open>access_count\<close> column holds 64-bit signed integers (\<open>int64\<close>): a counter is a
  64-bit word, read as a signed value by \<open>sint\<close>, and \<open>+= 1\<close> wraps from \<open>2^63 - 1\<close> to
  \<open>-2^63\<close>. Node ids and sizes are Python integers.
\<close>

record page =
  page_id :: string
  data :: string
  access_count :: "64 word"

record node =
  node_id :: int
  memory :: "page list"
  memory_size :: int

datatype error = IndexError | UnicodeEncodeError | UnicodeDecodeError

section \<open>Node operations\<close>

text \<open>
  \<open>Node.allocate_page\<close>: the row \<open>[page_id, data, 0]\<close> is stored under the next free
  label when the table has fewer than \<open>memory_size\<close> rows. The model returns the
  method's result together with the node after the call.
\<close>

definition allocate_page :: "node \<Rightarrow> string \<Rightarrow> string \<Rightarrow> bool \<times> node" where
  "allocate_page self pid d =
     (if int (length (memory self)) < memory_size self
      then (True, self\<lparr>memory := memory self @ [\<lparr>page_id = pid, data = d, access_count = 0\<rparr>]\<rparr>)
      else (False, self))"

text \<open>
  \<open>Node.access_page\<close>: \<open>page\<close> is the sub-table of all rows whose \<open>page_id\<close> equals the
  argument. When it is not empty, the counter of every row whose label is in
  \<open>page.index\<close> is incremented in \<open>int64\<close> arithmetic, and the \<open>data\<close> of the first row of
  \<open>page\<close> is returned. \<open>None\<close> is Python's \<open>None\<close>.
\<close>

definition access_page :: "node \<Rightarrow> string \<Rightarrow> string option \<times> node" where
  "access_page self pid =
     (let page = filter (\<lambda>r. page_id r = pid) (memory self) in
      case page of
        [] \<Rightarrow> (None, self)
      | first # _ \<Rightarrow>
          (Some (data first),
           self\<lparr>memory := map (\<lambda>r. if page_id r = pid
                                   then r\<lparr>access_count := access_count r + 1\<rparr> else r)
                             (memory self)\<rparr>))"

section \<open>The cluster\<close>

text \<open>
  \<open>nodes = [Node(i, 3) for i in range(3)]\<close>.
\<close>

definition nodes_init :: "node list" where
  "nodes_init = map (\<lambda>i. \<lparr>node_id = int i, memory = [], memory_size = 3\<rparr>) [0 ..< 3]"

text \<open>
  The body of the distribution loop. Python's \<open>hash\<close> of a string is seeded per process
  and fixed within it, so it is a parameter \<open>h\<close>. Python's \<open>%\<close> with a positive modulus
  is never negative, as \<open>mod\<close> on \<open>int\<close>. Indexing the node list out of range raises
  \<open>IndexError\<close>.
\<close>

definition node_idx :: "(string \<Rightarrow> int) \<Rightarrow> string \<Rightarrow> nat" where
  "node_idx h pid = nat (h pid mod 3)"

definition allocate :: "(string \<Rightarrow> int) \<Rightarrow> node list \<Rightarrow> string \<Rightarrow> string \<Rightarrow> error + bool \<times> node list" where
  "allocate h nodes pid d =
     (let i = node_idx h pid in
      if i < length nodes
      then (case allocate_page (nodes ! i) pid d of (ok, n') \<Rightarrow> Inr (ok, nodes[i := n']))
      else Inl IndexError)"

text \<open>
  The distribution loop over a list of \<open>(page_id, data)\<close> pairs. The result lists, in
  input order, what \<open>allocate_page\<close> returned for each pair; the program prints the
  line \<open>Node i full! Page p not allocated.\<close> exactly for the entries that are \<open>False\<close>.
\<close>

fun distribute :: "(string \<Rightarrow> int) \<Rightarrow> node list \<Rightarrow> (string \<times> string) list \<Rightarrow> error + bool list \<times> node list" where
  "distribute h nodes [] = Inr ([], nodes)"
| "distribute h nodes ((pid, d) # ps) =
     (case allocate h nodes pid d of
        Inl e \<Rightarrow> Inl e
      | Inr (ok, nodes') \<Rightarrow>
          (case distribute h nodes' ps of
             Inl e \<Rightarrow> Inl e
           | Inr (oks, nodes'') \<Rightarrow> Inr (ok # oks, nodes'')))"

text \<open>
  \<open>MemoryManagerGUI.access_page\<close>: the nodes are asked in list order until one returns
  data. The text put into the result label is modelled by its parts.
\<close>

datatype label = Found string int string | PageFault string

fun gui_access_page :: "node list \<Rightarrow> string \<Rightarrow> label \<times> node list" where
  "gui_access_page [] pid = (PageFault pid, [])"
| "gui_access_page (n # ns) pid =
     (case access_page n pid of
        (Some d, n') \<Rightarrow> (Found pid (node_id n) d, n' # ns)
      | (None, n') \<Rightarrow>
          (case gui_access_page ns pid of (l, ns') \<Rightarrow> (l, n' # ns')))"

text \<open>
  A sequence of calls against the cluster, for properties that hold under every
  interleaving of allocations and lookups.
\<close>

datatype call = Allocate string string | Access string

fun run :: "(string \<Rightarrow> int) \<Rightarrow> node list \<Rightarrow> call list \<Rightarrow> error + node list" where
  "run h nodes [] = Inr nodes"
| "run h nodes (Allocate pid d # cs) =
     (case allocate h nodes pid d of
        Inl e \<Rightarrow> Inl e
      | Inr (ok, nodes') \<Rightarrow> run h nodes' cs)"
| "run h nodes (Access pid # cs) = run h (snd (gui_access_page nodes pid)) cs"

text \<open>
  \<open>pages = [(f'page_{i}', f'data_{i}') for i in range(10)]\<close>: the ten pages the program
  distributes at start-up. The decimal text of \<open>i < 10\<close> is the single digit with
  character code \<open>48 + i\<close>.
\<close>

definition pages :: "(string \<times> string) list" where
  "pages = map (\<lambda>i. (''page_'' @ [char_of (48 + i)], ''data_'' @ [char_of (48 + i)])) [0 ..< 10]"

text \<open>
  A concrete hash for running the model on concrete inputs: the sum of the character
  codes. The theorems below hold for every hash function.
\<close>

definition sample_hash :: "string \<Rightarrow> int" where
  "sample_hash s = sum_list (map of_char s)"

section \<open>Vocabulary of the properties\<close>

text \<open>A node respects its capacity when it holds at most \<open>memory_size\<close> rows.\<close>

definition within_capacity :: "node \<Rightarrow> bool" where
  "within_capacity n \<longleftrightarrow> int (length (memory n)) \<le> memory_size n"

text \<open>The row that \<open>allocate_page\<close> stores for a \<open>(page_id, data)\<close> pair.\<close>

definition new_page :: "string \<times> string \<Rightarrow> page" where
  "new_page = (\<lambda>(pid, d). \<lparr>page_id = pid, data = d, access_count = 0\<rparr>)"

text \<open>
  The pairs of a batch whose allocation succeeded, in input order, given the outcomes
  that \<open>distribute\<close> returned.
\<close>

definition successes :: "(string \<times> string) list \<Rightarrow> bool list \<Rightarrow> (string \<times> string) list" where
  "successes ps oks = map fst (filter snd (zip ps oks))"

text \<open>
  The data of the first, and of the most recent, successful allocation of an
  identifier in a batch.
\<close>

definition first_allocated :: "string \<Rightarrow> (string \<times> string) list \<Rightarrow> bool list \<Rightarrow> string option" where
  "first_allocated pid ps oks = map_option snd (find (\<lambda>(p, d). p = pid) (successes ps oks))"

definition latest_allocated :: "string \<Rightarrow> (string \<times> string) list \<Rightarrow> bool list \<Rightarrow> string option" where
  "latest_allocated pid ps oks =
     map_option snd (find (\<lambda>(p, d). p = pid) (rev (successes ps oks)))"

text \<open>All rows of the cluster in node order, and their identifiers.\<close>

definition all_records :: "node list \<Rightarrow> page list" where
  "all_records ns = concat (map memory ns)"

definition all_ids :: "node list \<Rightarrow> string list" where
  "all_ids ns = map page_id (all_records ns)"

text \<open>The data shown by the result label, if any.\<close>

fun found_data :: "label \<Rightarrow> string option" where
  "found_data (Found pid i d) = Some d"
| "found_data (PageFault pid) = None"

section \<open>The cipher\<close>

text \<open>
  The cipher works on the UTF-8 encoding of a text, so here a Python string is the list
  of its code points (each below \<open>0x110000\<close>) and \<open>bytes\<close> is a list of 8-bit words.
  The key is one byte: the program only ever passes the default \<open>0x55\<close>.
\<close>

type_synonym byte = "8 word"

text \<open>
  A Unicode scalar value is a code point that is not a surrogate. A Python string may
  hold surrogate code points; they have no UTF-8 encoding.
\<close>

definition unicode_scalar :: "nat \<Rightarrow> bool" where
  "unicode_scalar c \<longleftrightarrow> c < 0xD800 \<or> (0xE000 \<le> c \<and> c < 0x110000)"

text \<open>
  \<open>str.encode()\<close>: strict UTF-8. One to four bytes per code point;
  \<open>UnicodeEncodeError\<close> on a surrogate.
\<close>

definition utf8_encode_char :: "nat \<Rightarrow> error + byte list" where
  "utf8_encode_char c =
     (if c < 0x80 then Inr [of_nat c]
      else if c < 0x800 then Inr [of_nat (0xC0 + c div 0x40), of_nat (0x80 + c mod 0x40)]
      else if 0xD800 \<le> c \<and> c < 0xE000 then Inl UnicodeEncodeError
      else if c < 0x10000 then
        Inr [of_nat (0xE0 + c div 0x1000), of_nat (0x80 + c div 0x40 mod 0x40),
             of_nat (0x80 + c mod 0x40)]
      else if c < 0x110000 then
        Inr [of_nat (0xF0 + c div 0x40000), of_nat (0x80 + c div 0x1000 mod 0x40),
             of_nat (0x80 + c div 0x40 mod 0x40), of_nat (0x80 + c mod 0x40)]
      else Inl UnicodeEncodeError)"

fun encode :: "nat list \<Rightarrow> error + byte list" where
  "encode [] = Inr []"
| "encode (c # cs) =
     (case utf8_encode_char c of
        Inl e \<Rightarrow> Inl e
      | Inr bs \<Rightarrow> (case encode cs of Inl e \<Rightarrow> Inl e | Inr rest \<Rightarrow> Inr (bs @ rest)))"

text \<open>
  \<open>bytes.decode()\<close>: strict UTF-8. A lead byte announces the length of the sequence,
  each following byte must be a continuation byte \<open>10xxxxxx\<close>, and the decoded code
  point must need that length (no overlong form), must not be a surrogate and must be
  below \<open>0x110000\<close>; anything else is \<open>UnicodeDecodeError\<close>. \<open>decode_char\<close> reads one
  code point and returns it with the remaining bytes.
\<close>

definition continuation :: "byte \<Rightarrow> bool" where
  "continuation b \<longleftrightarrow> 0x80 \<le> unat b \<and> unat b < 0xC0"

definition payload :: "byte \<Rightarrow> nat" where
  "payload b = unat b - 0x80"

definition decode_char :: "byte list \<Rightarrow> (nat \<times> byte list) option" where
  "decode_char bytes =
     (case bytes of
        [] \<Rightarrow> None
      | b # bs \<Rightarrow>
          (let n = unat b in
           if n < 0x80 then Some (n, bs)
           else if n < 0xC0 then None
           else if n < 0xE0 then
             (case bs of
                b1 # rest \<Rightarrow>
                  (let c = (n - 0xC0) * 0x40 + payload b1 in
                   if continuation b1 \<and> 0x80 \<le> c then Some (c, rest) else None)
              | _ \<Rightarrow> None)
           else if n < 0xF0 then
             (case bs of
                b1 # b2 # rest \<Rightarrow>
                  (let c = (n - 0xE0) * 0x1000 + payload b1 * 0x40 + payload b2 in
                   if continuation b1 \<and> continuation b2 \<and> 0x800 \<le> c \<and>
                      \<not> (0xD800 \<le> c \<and> c < 0xE000)
                   then Some (c, rest) else None)
              | _ \<Rightarrow> None)
           else if n < 0xF8 then
             (case bs of
                b1 # b2 # b3 # rest \<Rightarrow>
                  (let c = (n - 0xF0) * 0x40000 + payload b1 * 0x1000 + payload b2 * 0x40 +
                           payload b3 in
                   if continuation b1 \<and> continuation b2 \<and> continuation b3 \<and>
                      0x10000 \<le> c \<and> c < 0x110000
                   then Some (c, rest) else None)
              | _ \<Rightarrow> None)
           else None))"

function decode :: "byte list \<Rightarrow> error + nat list" where
  "decode bytes =
     (if bytes = [] then Inr []
      else (case decode_char bytes of
              None \<Rightarrow> Inl UnicodeDecodeError
            | Some (c, rest) \<Rightarrow>
                (case decode rest of Inl e \<Rightarrow> Inl e | Inr cs \<Rightarrow> Inr (c # cs))))"
  by pat_completeness auto
termination
proof (relation "measure length")
  show "wf (measure length)" by simp
next
  fix bytes :: "byte list" and x2 c rest
  assume "decode_char bytes = Some x2" and "(c, rest) = x2"
  then have "decode_char bytes = Some (c, rest)" by simp
  then have "length rest < length bytes"
    by (auto simp: decode_char_def Let_def split: list.splits if_splits)
  then show "(rest, bytes) \<in> measure length" by simp
qed

declare decode.simps [simp del]

text \<open>
  \<open>encrypt\<close>: every byte of \<open>data.encode()\<close> is xor-ed with the key; the values fit
  \<open>uint8\<close>, and \<open>tobytes\<close> gives them back as bytes.
\<close>

definition encrypt :: "nat list \<Rightarrow> byte \<Rightarrow> error + byte list" where
  "encrypt txt key =
     (case encode txt of
        Inl e \<Rightarrow> Inl e
      | Inr data_bytes \<Rightarrow> Inr (map (\<lambda>b. b XOR key) data_bytes))"

text \<open>
  \<open>decrypt\<close>: every byte of the buffer is xor-ed with the key and the resulting bytes
  are decoded.
\<close>

definition decrypt :: "byte list \<Rightarrow> byte \<Rightarrow> error + nat list" where
  "decrypt encrypted_data key = decode (map (\<lambda>b. b XOR key) encrypted_data)"

section \<open>Auxiliary facts\<close>

lemma access_page_miss: "\<forall>r\<in>set (memory n). page_id r \<noteq> pid \<Longrightarrow> access_page n pid = (None, n)"
  by (simp add: access_page_def filter_False)

lemma access_page_memory:
  "memory (snd (access_page n pid)) =
     map (\<lambda>r. if page_id r = pid then r\<lparr>access_count := access_count r + 1\<rparr> else r) (memory n)"
proof (cases "filter (\<lambda>r. page_id r = pid) (memory n)")
  case Nil
  then have "\<forall>r\<in>set (memory n). page_id r \<noteq> pid"
    by (simp add: filter_empty_conv)
  then have "map (\<lambda>r. if page_id r = pid then r\<lparr>access_count := access_count r + 1\<rparr> else r) (memory n) = memory n"
    by (simp add: map_idI)
  with Nil show ?thesis by (simp add: access_page_def)
next
  case (Cons a list)
  then show ?thesis by (simp add: access_page_def)
qed

lemma access_page_fields:
  "node_id (snd (access_page n pid)) = node_id n"
  "memory_size (snd (access_page n pid)) = memory_size n"
  by (simp_all add: access_page_def Let_def split: list.splits)

lemma filter_head_find:
  "(case filter P xs of [] \<Rightarrow> None | x # _ \<Rightarrow> Some (f x)) = map_option f (find P xs)"
  by (induction xs) auto

lemma access_page_result:
  "fst (access_page n pid) = map_option data (find (\<lambda>r. page_id r = pid) (memory n))"
  unfolding filter_head_find [symmetric]
  by (simp add: access_page_def split: list.splits)

lemma access_page_None: "fst (access_page n pid) = None \<Longrightarrow> access_page n pid = (None, n)"
  by (simp add: access_page_def Let_def split: list.splits)

lemma node_idx_less: "node_idx h pid < 3"
  by (simp add: node_idx_def nat_less_iff)

lemma node_idx_cases: "node_idx h pid = 0 \<or> node_idx h pid = 1 \<or> node_idx h pid = 2"
  using node_idx_less [of h pid] by linarith

lemma allocate_Inr:
  "length ns = 3 \<Longrightarrow>
   allocate h ns pid d =
     Inr (fst (allocate_page (ns ! node_idx h pid) pid d),
          ns[node_idx h pid := snd (allocate_page (ns ! node_idx h pid) pid d)])"
  by (simp add: allocate_def Let_def node_idx_less split: prod.splits)

lemma allocate_length: "allocate h ns pid d = Inr (ok, ns') \<Longrightarrow> length ns' = length ns"
  by (auto simp: allocate_def Let_def split: if_splits prod.splits)

lemma allocate_memory:
  assumes "allocate h ns pid d = Inr (ok, ns')" and "i < length ns"
  shows "memory (ns' ! i) =
           memory (ns ! i) @ (if ok \<and> node_idx h pid = i then [new_page (pid, d)] else [])"
proof -
  let ?k = "node_idx h pid"
  from assms(1) have k: "?k < length ns"
    and ok: "ok = fst (allocate_page (ns ! ?k) pid d)"
    and ns': "ns' = ns[?k := snd (allocate_page (ns ! ?k) pid d)]"
    by (auto simp: allocate_def Let_def split: if_splits prod.splits)
  show ?thesis
  proof (cases "?k = i")
    case True
    then show ?thesis
      using k by (simp add: ns' ok allocate_page_def new_page_def)
  next
    case False
    then show ?thesis
      using assms(2) by (simp add: ns')
  qed
qed

lemma allocate_page_within: "within_capacity n \<Longrightarrow> within_capacity (snd (allocate_page n pid d))"
  by (simp add: within_capacity_def allocate_page_def)

lemma access_page_within: "within_capacity n \<Longrightarrow> within_capacity (snd (access_page n pid))"
  by (simp add: within_capacity_def access_page_memory access_page_fields)

lemma gui_access_page_length: "length (snd (gui_access_page ns pid)) = length ns"
  by (induction ns) (auto split: prod.splits option.splits)

lemma gui_access_page_within:
  "\<forall>n\<in>set ns. within_capacity n \<Longrightarrow> \<forall>n\<in>set (snd (gui_access_page ns pid)). within_capacity n"
proof (induction ns)
  case Nil
  then show ?case by simp
next
  case (Cons n ns)
  have "within_capacity (snd (access_page n pid))"
    using Cons.prems by (simp add: access_page_within)
  moreover have "\<forall>m\<in>set (snd (gui_access_page ns pid)). within_capacity m"
    using Cons by simp
  ultimately show ?case
    using Cons.prems by (auto split: prod.splits option.splits)
qed

lemma allocate_within:
  assumes "allocate h ns pid d = Inr (ok, ns')" and "\<forall>n\<in>set ns. within_capacity n"
  shows "\<forall>n\<in>set ns'. within_capacity n"
proof -
  let ?i = "node_idx h pid"
  from assms(1) have i: "?i < length ns"
    and ns': "ns' = ns[?i := snd (allocate_page (ns ! ?i) pid d)]"
    by (auto simp: allocate_def Let_def split: if_splits prod.splits)
  have "within_capacity (snd (allocate_page (ns ! ?i) pid d))"
    using assms(2) i by (simp add: allocate_page_within)
  then show ?thesis
    using assms(2) unfolding ns' by (auto dest!: set_update_subset_insert [THEN subsetD])
qed

lemma successes_Nil [simp]: "successes [] oks = []" "successes ps [] = []"
  by (simp_all add: successes_def)

lemma successes_Cons [simp]:
  "successes (p # ps) (ok # oks) = (if ok then p # successes ps oks else successes ps oks)"
  by (simp add: successes_def)

lemma successes_subset: "set (successes ps oks) \<subseteq> set ps"
  by (auto simp: successes_def dest: set_zip_leftD)

lemma successes_distinct: "distinct (map fst ps) \<Longrightarrow> distinct (map fst (successes ps oks))"
proof (induction ps arbitrary: oks)
  case Nil
  then show ?case by simp
next
  case (Cons p ps)
  show ?case
  proof (cases oks)
    case Nil
    then show ?thesis by simp
  next
    case (Cons ok oks')
    have "fst p \<notin> fst ` set (successes ps oks')"
      using Cons.prems successes_subset [of ps oks'] by auto
    then show ?thesis
      using Cons.IH [of oks'] Cons.prems Cons by simp
  qed
qed

lemma page_id_new_page: "page_id (new_page x) = fst x" "data (new_page x) = snd x"
  by (cases x; simp add: new_page_def)+

lemma distribute_total:
  "length ns = 3 \<Longrightarrow> \<exists>oks ns'. distribute h ns ps = Inr (oks, ns')"
proof (induction ps arbitrary: ns)
  case Nil
  then show ?case by simp
next
  case (Cons p ps)
  obtain pid d where p: "p = (pid, d)" by (cases p)
  obtain ok ns1 where a: "allocate h ns pid d = Inr (ok, ns1)"
    using Cons.prems by (simp add: allocate_Inr)
  then have "length ns1 = 3"
    using Cons.prems allocate_length by simp
  from Cons.IH [OF this] obtain oks ns' where "distribute h ns1 ps = Inr (oks, ns')"
    by blast
  then show ?case
    using a p by simp
qed

lemma distribute_length:
  "distribute h ns ps = Inr (oks, ns') \<Longrightarrow> length ns' = length ns \<and> length oks = length ps"
proof (induction ps arbitrary: ns oks)
  case Nil
  then show ?case by simp
next
  case (Cons p ps)
  obtain pid d where p: "p = (pid, d)" by (cases p)
  from Cons.prems obtain ok ns1 oks1 where a: "allocate h ns pid d = Inr (ok, ns1)"
    and r: "distribute h ns1 ps = Inr (oks1, ns')" and oks: "oks = ok # oks1"
    by (auto simp: p split: sum.splits)
  from Cons.IH [OF r] allocate_length [OF a] show ?case
    by (simp add: oks)
qed

lemma distribute_memory:
  "distribute h ns ps = Inr (oks, ns') \<Longrightarrow> i < length ns \<Longrightarrow>
   memory (ns' ! i) =
     memory (ns ! i) @ map new_page (filter (\<lambda>(p, d). node_idx h p = i) (successes ps oks))"
proof (induction ps arbitrary: ns oks)
  case Nil
  then show ?case by simp
next
  case (Cons p ps)
  obtain pid d where p: "p = (pid, d)" by (cases p)
  from Cons.prems(1) obtain ok ns1 oks1 where a: "allocate h ns pid d = Inr (ok, ns1)"
    and r: "distribute h ns1 ps = Inr (oks1, ns')" and oks: "oks = ok # oks1"
    by (auto simp: p split: sum.splits)
  have i: "i < length ns1"
    using allocate_length [OF a] Cons.prems(2) by simp
  show ?case
    using Cons.IH [OF r i] allocate_memory [OF a Cons.prems(2)]
    by (simp add: oks p)
qed

lemma length3: "length ns = 3 \<Longrightarrow> ns = [ns ! 0, ns ! 1, ns ! 2]"
  by (auto simp: length_Suc_conv numeral_3_eq_3 numeral_2_eq_2)

lemma all_records3:
  "length ns = 3 \<Longrightarrow> all_records ns = memory (ns ! 0) @ memory (ns ! 1) @ memory (ns ! 2)"
  by (subst length3 [of ns]) (simp_all add: all_records_def)

lemma find_append:
  "find P (xs @ ys) = (case find P xs of None \<Rightarrow> find P ys | Some x \<Rightarrow> Some x)"
  by (induction xs) auto

lemma gui_access_page_data:
  "found_data (fst (gui_access_page ns pid)) =
     map_option data (find (\<lambda>r. page_id r = pid) (all_records ns))"
proof (induction ns)
  case Nil
  then show ?case by (simp add: all_records_def)
next
  case (Cons n ns)
  obtain r n' where a: "access_page n pid = (r, n')"
    by (cases "access_page n pid")
  then have r: "map_option data (find (\<lambda>r. page_id r = pid) (memory n)) = r"
    using access_page_result [of n pid] by simp
  show ?case
  proof (cases r)
    case None
    then show ?thesis
      using a r Cons.IH
      by (auto simp: all_records_def find_append split: prod.splits)
  next
    case (Some d)
    then show ?thesis
      using a r by (auto simp: all_records_def find_append)
  qed
qed

lemma gui_access_page_label:
  "fst (gui_access_page ns pid) = PageFault pid \<longleftrightarrow> found_data (fst (gui_access_page ns pid)) = None"
  by (induction ns) (auto split: prod.splits option.splits)

lemma find_routed:
  "find (\<lambda>r. page_id r = pid) (map new_page (filter (\<lambda>(p, d). node_idx h p = i) S)) =
     (if node_idx h pid = i then map_option new_page (find (\<lambda>(p, d). p = pid) S) else None)"
  by (induction S) (auto simp: new_page_def)

lemma mset_routed:
  "mset (filter (\<lambda>(p, d). node_idx h p = 0) S) + mset (filter (\<lambda>(p, d). node_idx h p = 1) S) +
   mset (filter (\<lambda>(p, d). node_idx h p = 2) S) = mset S"
proof (induction S)
  case Nil
  then show ?case by simp
next
  case (Cons x S)
  obtain p d where x: "x = (p, d)" by (cases x)
  from node_idx_cases [of h p] Cons show ?case
    by (auto simp: x)
qed

lemma unat_byte: "n < 256 \<Longrightarrow> unat (of_nat n :: byte) = n"
  by (simp add: unat_of_nat take_bit_nat_eq_self)

lemma xor_twice: "map (\<lambda>b. b XOR k) (map (\<lambda>b. b XOR k) bs) = (bs :: byte list)"
  by (induction bs) (simp_all add: xor.assoc)

lemma decode_char_1:
  "unat b0 = c \<Longrightarrow> c < 0x80 \<Longrightarrow> decode_char (b0 # rest) = Some (c, rest)"
  by (simp add: decode_char_def)

lemma decode_char_2:
  "unat b0 = 0xC0 + q \<Longrightarrow> q < 0x20 \<Longrightarrow> unat b1 = 0x80 + r \<Longrightarrow> r < 0x40 \<Longrightarrow>
   0x80 \<le> q * 0x40 + r \<Longrightarrow>
   decode_char (b0 # b1 # rest) = Some (q * 0x40 + r, rest)"
  by (simp add: decode_char_def continuation_def payload_def)

lemma decode_char_3:
  "unat b0 = 0xE0 + p \<Longrightarrow> p < 0x10 \<Longrightarrow> unat b1 = 0x80 + q \<Longrightarrow> q < 0x40 \<Longrightarrow>
   unat b2 = 0x80 + r \<Longrightarrow> r < 0x40 \<Longrightarrow>
   0x800 \<le> p * 0x1000 + q * 0x40 + r \<Longrightarrow>
   \<not> (0xD800 \<le> p * 0x1000 + q * 0x40 + r \<and> p * 0x1000 + q * 0x40 + r < 0xE000) \<Longrightarrow>
   decode_char (b0 # b1 # b2 # rest) = Some (p * 0x1000 + q * 0x40 + r, rest)"
  by (simp add: decode_char_def continuation_def payload_def)

lemma decode_char_4:
  "unat b0 = 0xF0 + s \<Longrightarrow> s < 0x8 \<Longrightarrow> unat b1 = 0x80 + p \<Longrightarrow> p < 0x40 \<Longrightarrow>
   unat b2 = 0x80 + q \<Longrightarrow> q < 0x40 \<Longrightarrow> unat b3 = 0x80 + r \<Longrightarrow> r < 0x40 \<Longrightarrow>
   0x10000 \<le> s * 0x40000 + p * 0x1000 + q * 0x40 + r \<Longrightarrow>
   s * 0x40000 + p * 0x1000 + q * 0x40 + r < 0x110000 \<Longrightarrow>
   decode_char (b0 # b1 # b2 # b3 # rest) = Some (s * 0x40000 + p * 0x1000 + q * 0x40 + r, rest)"
  by (simp add: decode_char_def continuation_def payload_def)

lemma split_2: "(c::nat) = c div 0x40 * 0x40 + c mod 0x40"
  by simp

lemma split_3: "(c::nat) = c div 0x1000 * 0x1000 + c div 0x40 mod 0x40 * 0x40 + c mod 0x40"
proof -
  have "c div 0x1000 = c div 0x40 div 0x40"
    by (simp add: div_mult2_eq [symmetric])
  then have "c div 0x40 = c div 0x1000 * 0x40 + c div 0x40 mod 0x40"
    by simp
  then show ?thesis
    using split_2 [of c] by linarith
qed

lemma split_4:
  "(c::nat) = c div 0x40000 * 0x40000 + c div 0x1000 mod 0x40 * 0x1000 +
     c div 0x40 mod 0x40 * 0x40 + c mod 0x40"
proof -
  have "c div 0x40000 = c div 0x1000 div 0x40"
    by (simp add: div_mult2_eq [symmetric])
  then have "c div 0x1000 = c div 0x40000 * 0x40 + c div 0x1000 mod 0x40"
    by simp
  then show ?thesis
    using split_3 [of c] by linarith
qed

lemma decode_char_encode:
  assumes "utf8_encode_char c = Inr bs"
  shows "decode_char (bs @ rest) = Some (c, rest)"
proof -
  consider (one) "c < 0x80"
    | (two) "0x80 \<le> c" "c < 0x800"
    | (three) "0x800 \<le> c" "c < 0x10000" "\<not> (0xD800 \<le> c \<and> c < 0xE000)"
    | (four) "0x10000 \<le> c" "c < 0x110000"
    | (bad) "(0xD800 \<le> c \<and> c < 0xE000) \<or> 0x110000 \<le> c"
    by linarith
  then show ?thesis
  proof cases
    case one
    then have "bs = [of_nat c]"
      using assms by (simp add: utf8_encode_char_def)
    then show ?thesis
      using one by (simp add: decode_char_1 unat_byte)
  next
    case two
    let ?q = "c div 0x40" and ?r = "c mod 0x40"
    have bs: "bs = [of_nat (0xC0 + ?q), of_nat (0x80 + ?r)]"
      using assms two by (simp add: utf8_encode_char_def del: of_nat_add)
    have q: "?q < 0x20" using two by simp
    have r: "?r < 0x40" by simp
    have b0: "unat (of_nat (0xC0 + ?q) :: byte) = 0xC0 + ?q"
      using q by (intro unat_byte) simp
    have b1: "unat (of_nat (0x80 + ?r) :: byte) = 0x80 + ?r"
      using r by (intro unat_byte) simp
    have c: "?q * 0x40 + ?r = c"
      using split_2 [of c] by simp
    have "decode_char (of_nat (0xC0 + ?q) # of_nat (0x80 + ?r) # rest) = Some (?q * 0x40 + ?r, rest)"
      using b0 q b1 r by (rule decode_char_2) (use two c in simp)
    then show ?thesis
      by (simp only: bs c append_Cons append_Nil)
  next
    case three
    let ?p = "c div 0x1000" and ?q = "c div 0x40 mod 0x40" and ?r = "c mod 0x40"
    have bs: "bs = [of_nat (0xE0 + ?p), of_nat (0x80 + ?q), of_nat (0x80 + ?r)]"
      using assms three by (simp add: utf8_encode_char_def del: of_nat_add)
    have p: "?p < 0x10" using three by simp
    have q: "?q < 0x40" by simp
    have r: "?r < 0x40" by simp
    have b0: "unat (of_nat (0xE0 + ?p) :: byte) = 0xE0 + ?p"
      using p by (intro unat_byte) simp
    have b1: "unat (of_nat (0x80 + ?q) :: byte) = 0x80 + ?q"
      using q by (intro unat_byte) simp
    have b2: "unat (of_nat (0x80 + ?r) :: byte) = 0x80 + ?r"
      using r by (intro unat_byte) simp
    have c: "?p * 0x1000 + ?q * 0x40 + ?r = c"
      using split_3 [of c] by simp
    have "decode_char (of_nat (0xE0 + ?p) # of_nat (0x80 + ?q) # of_nat (0x80 + ?r) # rest) =
        Some (?p * 0x1000 + ?q * 0x40 + ?r, rest)"
      using b0 p b1 q b2 r by (rule decode_char_3) (simp_all only: c, insert three, simp_all)
    then show ?thesis
      by (simp only: bs c append_Cons append_Nil)
  next
    case four
    let ?s = "c div 0x40000" and ?p = "c div 0x1000 mod 0x40"
      and ?q = "c div 0x40 mod 0x40" and ?r = "c mod 0x40"
    have bs: "bs = [of_nat (0xF0 + ?s), of_nat (0x80 + ?p), of_nat (0x80 + ?q), of_nat (0x80 + ?r)]"
      using assms four by (simp add: utf8_encode_char_def del: of_nat_add)
    have s: "?s < 0x8" using four by simp
    have p: "?p < 0x40" by simp
    have q: "?q < 0x40" by simp
    have r: "?r < 0x40" by simp
    have b0: "unat (of_nat (0xF0 + ?s) :: byte) = 0xF0 + ?s"
      using s by (intro unat_byte) simp
    have b1: "unat (of_nat (0x80 + ?p) :: byte) = 0x80 + ?p"
      using p by (intro unat_byte) simp
    have b2: "unat (of_nat (0x80 + ?q) :: byte) = 0x80 + ?q"
      using q by (intro unat_byte) simp
    have b3: "unat (of_nat (0x80 + ?r) :: byte) = 0x80 + ?r"
      using r by (intro unat_byte) simp
    have c: "?s * 0x40000 + ?p * 0x1000 + ?q * 0x40 + ?r = c"
      using split_4 [of c] by simp
    have "decode_char (of_nat (0xF0 + ?s) # of_nat (0x80 + ?p) # of_nat (0x80 + ?q) #
          of_nat (0x80 + ?r) # rest) =
        Some (?s * 0x40000 + ?p * 0x1000 + ?q * 0x40 + ?r, rest)"
      using b0 s b1 p b2 q b3 r by (rule decode_char_4) (simp_all only: c, insert four, simp_all)
    then show ?thesis
      by (simp only: bs c append_Cons append_Nil)
  next
    case bad
    then have False
      using assms by (auto simp: utf8_encode_char_def)
    then show ?thesis ..
  qed
qed

lemma utf8_encode_char_nonempty: "utf8_encode_char c = Inr bs \<Longrightarrow> bs \<noteq> []"
  by (auto simp: utf8_encode_char_def split: if_splits)

lemma utf8_encode_char_scalar:
  "(\<exists>bs. utf8_encode_char c = Inr bs) \<longleftrightarrow> unicode_scalar c"
  by (auto simp: utf8_encode_char_def unicode_scalar_def)

lemma encode_scalar: "(\<exists>bs. encode t = Inr bs) \<longleftrightarrow> (\<forall>c\<in>set t. unicode_scalar c)"
proof (induction t)
  case Nil
  then show ?case by simp
next
  case (Cons c t)
  show ?case
    using Cons.IH utf8_encode_char_scalar [of c]
    by (auto split: sum.splits)
qed

lemma decode_encode: "encode t = Inr bs \<Longrightarrow> decode bs = Inr t"
proof (induction t arbitrary: bs)
  case Nil
  then show ?case by (auto simp: decode.simps)
next
  case (Cons c t)
  from Cons.prems obtain b r where b: "utf8_encode_char c = Inr b"
    and r: "encode t = Inr r" and bs: "bs = b @ r"
    by (auto split: sum.splits)
  have "b @ r \<noteq> []"
    using utf8_encode_char_nonempty [OF b] by simp
  moreover have "decode_char (b @ r) = Some (c, r)"
    using b by (rule decode_char_encode)
  moreover have "decode r = Inr t"
    using r by (rule Cons.IH)
  ultimately show ?case
    unfolding bs by (subst decode.simps) simp
qed

lemma allocate_page_fields:
  "node_id (snd (allocate_page n pid d)) = node_id n"
  "memory_size (snd (allocate_page n pid d)) = memory_size n"
  by (simp_all add: allocate_page_def)

lemma allocate_sizes:
  assumes "allocate h ns pid d = Inr (ok, ns')"
  shows "map memory_size ns' = map memory_size ns"
proof -
  let ?k = "node_idx h pid"
  from assms have k: "?k < length ns"
    and ns': "ns' = ns[?k := snd (allocate_page (ns ! ?k) pid d)]"
    by (auto simp: allocate_def Let_def split: if_splits prod.splits)
  have "(map memory_size ns)[?k := memory_size (ns ! ?k)] = map memory_size ns"
    using k by (metis list_update_id nth_map)
  then show ?thesis
    unfolding ns' by (simp add: map_update allocate_page_fields)
qed

lemma gui_access_page_sizes:
  "map memory_size (snd (gui_access_page ns pid)) = map memory_size ns"
proof (induction ns)
  case Nil
  then show ?case by simp
next
  case (Cons n ns)
  have "memory_size (snd (access_page n pid)) = memory_size n"
    by (rule access_page_fields)
  then show ?case
    using Cons.IH by (auto split: prod.splits option.splits)
qed

lemma find_unique:
  "distinct (map f xs) \<Longrightarrow> x \<in> set xs \<Longrightarrow> find (\<lambda>y. f y = f x) xs = Some x"
  by (induction xs) (auto simp: rev_image_eqI)

lemma find_rev_distinct:
  assumes "distinct (map f xs)"
  shows "find (\<lambda>y. f y = k) (rev xs) = find (\<lambda>y. f y = k) xs"
proof (cases "find (\<lambda>y. f y = k) xs")
  case None
  then have "find (\<lambda>y. f y = k) (rev xs) = None"
    by (simp add: find_None_iff)
  with None show ?thesis by simp
next
  case (Some x)
  then have x: "x \<in> set xs" "f x = k"
    by (auto simp: find_Some_iff)
  have "distinct (map f (rev xs))"
    using assms by (metis distinct_rev rev_map)
  then have "find (\<lambda>y. f y = f x) (rev xs) = Some x"
    using x(1) by (intro find_unique) simp_all
  then show ?thesis
    using Some x(2) by simp
qed

lemma first_is_latest:
  "distinct (map fst (successes ps oks)) \<Longrightarrow> latest_allocated pid ps oks = first_allocated pid ps oks"
  using find_rev_distinct [of fst "successes ps oks" pid]
  by (simp add: latest_allocated_def first_allocated_def case_prod_unfold)

lemma all_less_Suc_2: "(\<forall>i<2. P i) \<longleftrightarrow> P 0 \<and> P (Suc 0)"
  by (auto simp: less_Suc_eq numeral_2_eq_2)

lemma all_less_Suc_3: "(\<forall>i<3. P i) \<longleftrightarrow> P 0 \<and> P (Suc 0) \<and> P 2"
  by (auto simp: less_Suc_eq numeral_3_eq_3 numeral_2_eq_2)

lemma encode_error: "encode t = Inl e \<Longrightarrow> e = UnicodeEncodeError"
proof (induction t)
  case Nil
  then show ?case by simp
next
  case (Cons c t)
  then show ?case
    by (auto simp: utf8_encode_char_def split: sum.splits if_splits)
qed

lemma sint_succ_int64:
  "sint (w + 1 :: 64 word) = (if sint w = 2 ^ 63 - 1 then - (2 ^ 63) else sint w + 1)"
proof (cases "sint w = 2 ^ 63 - 1")
  case True
  have "w = word_of_int (sint w)"
    by simp
  then have "w = word_of_int (2 ^ 63 - 1)"
    using True by simp
  then have "sint (w + 1) = - (2 ^ 63)"
    by simp
  with True show ?thesis by simp
next
  case False
  have lo: "- (2 ^ 63) \<le> sint w"
    using sint_ge [of w] by simp
  have hi: "sint w < 2 ^ 63"
    using sint_lt [of w] by simp
  have "sint (w + 1) = signed_take_bit 63 (sint w + 1)"
    by (simp add: sint_word_ariths)
  also have "\<dots> = sint w + 1"
    using lo hi False by (intro signed_take_bit_int_eq_self) simp_all
  finally show ?thesis
    using False by simp
qed

section \<open>Node contracts\<close>

text \<open>
  Claim C5. For every node and every \<open>(id, data)\<close>: a node whose record count is
  strictly below its capacity gets exactly one new record \<open>(id, data, 0)\<close> at the end
  and \<open>allocate_page\<close> returns true, the node's identity and capacity staying as they
  were; a node at capacity is left completely unchanged and \<open>allocate_page\<close> returns
  false.
\<close>

theorem allocate_page_contract:
  "(int (length (memory n)) < memory_size n \<longrightarrow>
      fst (allocate_page n pid d) \<and>
      memory (snd (allocate_page n pid d)) =
        memory n @ [\<lparr>page_id = pid, data = d, access_count = 0\<rparr>] \<and>
      node_id (snd (allocate_page n pid d)) = node_id n \<and>
      memory_size (snd (allocate_page n pid d)) = memory_size n) \<and>
   (\<not> int (length (memory n)) < memory_size n \<longrightarrow> allocate_page n pid d = (False, n))"
  by (simp add: allocate_page_def)

text \<open>
  The contract at an empty node of capacity 3, where the page is stored, and at a full
  node of capacity 1, where it is refused.
\<close>

theorem allocate_page_contract_witness:
  "fst (allocate_page \<lparr>node_id = 0, memory = [], memory_size = 3\<rparr> ''a'' ''x'') \<and>
   memory (snd (allocate_page \<lparr>node_id = 0, memory = [], memory_size = 3\<rparr> ''a'' ''x'')) =
     [\<lparr>page_id = ''a'', data = ''x'', access_count = 0\<rparr>] \<and>
   allocate_page
     \<lparr>node_id = 0, memory = [\<lparr>page_id = ''a'', data = ''x'', access_count = 0\<rparr>],
        memory_size = 1\<rparr> ''b'' ''y'' =
     (False,
      \<lparr>node_id = 0, memory = [\<lparr>page_id = ''a'', data = ''x'', access_count = 0\<rparr>],
         memory_size = 1\<rparr>)"
  using allocate_page_contract [of "\<lparr>node_id = 0, memory = [], memory_size = 3\<rparr>" "''a''" "''x''"]
    allocate_page_contract
      [of "\<lparr>node_id = 0, memory = [\<lparr>page_id = ''a'', data = ''x'', access_count = 0\<rparr>],
             memory_size = 1\<rparr>" "''b''" "''y''"]
  by simp

text \<open>
  Claim C8, as the code has it. If \<open>access_page\<close> finds a match, it returns data and
  increments by exactly 1, in the column's 64-bit signed arithmetic, the
  \<open>access_count\<close> of every record whose \<open>page_id\<close> equals the queried id (the first
  matching record among them): the signed value goes up by 1, except that a counter at
  \<open>2^63 - 1\<close> wraps to \<open>-2^63\<close>. The \<open>access_count\<close> of every record with another id is
  unchanged. If no record matches, it returns the not-found outcome and leaves the
  node unchanged.
\<close>

theorem access_page_counts:
  "((\<exists>r\<in>set (memory n). page_id r = pid) \<longrightarrow>
      (\<exists>d. fst (access_page n pid) = Some d) \<and>
      length (memory (snd (access_page n pid))) = length (memory n) \<and>
      (\<forall>i < length (memory n).
         (page_id (memory n ! i) = pid \<longrightarrow>
            access_count (memory (snd (access_page n pid)) ! i) =
              access_count (memory n ! i) + 1 \<and>
            sint (access_count (memory (snd (access_page n pid)) ! i)) =
              (if sint (access_count (memory n ! i)) = 2 ^ 63 - 1 then - (2 ^ 63)
               else sint (access_count (memory n ! i)) + 1)) \<and>
         (page_id (memory n ! i) \<noteq> pid \<longrightarrow>
            access_count (memory (snd (access_page n pid)) ! i) =
              access_count (memory n ! i)))) \<and>
   ((\<forall>r\<in>set (memory n). page_id r \<noteq> pid) \<longrightarrow> access_page n pid = (None, n))"
proof (intro conjI impI)
  assume hit: "\<exists>r\<in>set (memory n). page_id r = pid"
  then have "find (\<lambda>r. page_id r = pid) (memory n) \<noteq> None"
    by (auto simp: find_None_iff)
  then show "\<exists>d. fst (access_page n pid) = Some d"
    by (auto simp: access_page_result)
  show "length (memory (snd (access_page n pid))) = length (memory n)"
    by (simp add: access_page_memory)
  show "\<forall>i < length (memory n).
      (page_id (memory n ! i) = pid \<longrightarrow>
         access_count (memory (snd (access_page n pid)) ! i) =
           access_count (memory n ! i) + 1 \<and>
         sint (access_count (memory (snd (access_page n pid)) ! i)) =
           (if sint (access_count (memory n ! i)) = 2 ^ 63 - 1 then - (2 ^ 63)
            else sint (access_count (memory n ! i)) + 1)) \<and>
      (page_id (memory n ! i) \<noteq> pid \<longrightarrow>
         access_count (memory (snd (access_page n pid)) ! i) =
           access_count (memory n ! i))"
    by (simp add: access_page_memory sint_succ_int64)
next
  assume "\<forall>r\<in>set (memory n). page_id r \<noteq> pid"
  then show "access_page n pid = (None, n)"
    by (rule access_page_miss)
qed

text \<open>
  A node holding the ids \<open>a, b, a\<close> with counters \<open>0, 5, 2^63 - 1\<close>: a lookup of \<open>a\<close>
  returns data and leaves the signed counters \<open>1, 5, -2^63\<close>; a lookup of \<open>q\<close> finds
  nothing and changes nothing.
\<close>

theorem access_page_counts_witness:
  "(\<exists>d. fst (access_page
     \<lparr>node_id = 0,
        memory = [\<lparr>page_id = ''a'', data = ''x'', access_count = 0\<rparr>,
                  \<lparr>page_id = ''b'', data = ''y'', access_count = 5\<rparr>,
                  \<lparr>page_id = ''a'', data = ''z'', access_count = 0x7FFFFFFFFFFFFFFF\<rparr>],
        memory_size = 3\<rparr> ''a'') = Some d) \<and>
   sint (access_count (memory (snd (access_page
     \<lparr>node_id = 0,
        memory = [\<lparr>page_id = ''a'', data = ''x'', access_count = 0\<rparr>,
                  \<lparr>page_id = ''b'', data = ''y'', access_count = 5\<rparr>,
                  \<lparr>page_id = ''a'', data = ''z'', access_count = 0x7FFFFFFFFFFFFFFF\<rparr>],
        memory_size = 3\<rparr> ''a'')) ! 0)) = 1 \<and>
   sint (access_count (memory (snd (access_page
     \<lparr>node_id = 0,
        memory = [\<lparr>page_id = ''a'', data = ''x'', access_count = 0\<rparr>,
                  \<lparr>page_id = ''b'', data = ''y'', access_count = 5\<rparr>,
                  \<lparr>page_id = ''a'', data = ''z'', access_count = 0x7FFFFFFFFFFFFFFF\<rparr>],
        memory_size = 3\<rparr> ''a'')) ! 1)) = 5 \<and>
   sint (access_count (memory (snd (access_page
     \<lparr>node_id = 0,
        memory = [\<lparr>page_id = ''a'', data = ''x'', access_count = 0\<rparr>,
                  \<lparr>page_id = ''b'', data = ''y'', access_count = 5\<rparr>,
                  \<lparr>page_id = ''a'', data = ''z'', access_count = 0x7FFFFFFFFFFFFFFF\<rparr>],
        memory_size = 3\<rparr> ''a'')) ! 2)) = - (2 ^ 63) \<and>
   access_page
     \<lparr>node_id = 0,
        memory = [\<lparr>page_id = ''a'', data = ''x'', access_count = 0\<rparr>,
                  \<lparr>page_id = ''b'', data = ''y'', access_count = 5\<rparr>,
                  \<lparr>page_id = ''a'', data = ''z'', access_count = 0x7FFFFFFFFFFFFFFF\<rparr>],
        memory_size = 3\<rparr> ''q'' =
     (None,
     \<lparr>node_id = 0,
        memory = [\<lparr>page_id = ''a'', data = ''x'', access_count = 0\<rparr>,
                  \<lparr>page_id = ''b'', data = ''y'', access_count = 5\<rparr>,
                  \<lparr>page_id = ''a'', data = ''z'', access_count = 0x7FFFFFFFFFFFFFFF\<rparr>],
        memory_size = 3\<rparr>)"
  using access_page_counts
      [of "\<lparr>node_id = 0,
        memory = [\<lparr>page_id = ''a'', data = ''x'', access_count = 0\<rparr>,
                  \<lparr>page_id = ''b'', data = ''y'', access_count = 5\<rparr>,
                  \<lparr>page_id = ''a'', data = ''z'', access_count = 0x7FFFFFFFFFFFFFFF\<rparr>],
        memory_size = 3\<rparr>" "''a''"]
    access_page_counts
      [of "\<lparr>node_id = 0,
        memory = [\<lparr>page_id = ''a'', data = ''x'', access_count = 0\<rparr>,
                  \<lparr>page_id = ''b'', data = ''y'', access_count = 5\<rparr>,
                  \<lparr>page_id = ''a'', data = ''z'', access_count = 0x7FFFFFFFFFFFFFFF\<rparr>],
        memory_size = 3\<rparr>" "''q''"]
  by (simp add: all_less_Suc_3)

text \<open>
  Claim C8 as stated fails where a node holds two records with the queried id: the
  lookup of \<open>a\<close> returns the data of the first record and increments the counter of the
  second record as well.
\<close>

theorem access_page_first_only_counterexample:
  "access_page
     \<lparr>node_id = 0,
        memory = [\<lparr>page_id = ''a'', data = ''x'', access_count = 0\<rparr>,
                  \<lparr>page_id = ''a'', data = ''y'', access_count = 0\<rparr>],
        memory_size = 3\<rparr> ''a'' =
     (Some ''x'',
      \<lparr>node_id = 0,
         memory = [\<lparr>page_id = ''a'', data = ''x'', access_count = 1\<rparr>,
                   \<lparr>page_id = ''a'', data = ''y'', access_count = 1\<rparr>],
         memory_size = 3\<rparr>)"
  by (simp add: access_page_def)

text \<open>
  Claim C10. For every node and every id, \<open>access_page\<close> keeps the number of records,
  every record's \<open>page_id\<close> and \<open>data\<close>, and the \<open>access_count\<close> of every record whose
  \<open>page_id\<close> differs from the queried id; the node's identity and capacity stay too.
\<close>

theorem access_page_frame:
  "length (memory (snd (access_page n pid))) = length (memory n) \<and>
   node_id (snd (access_page n pid)) = node_id n \<and>
   memory_size (snd (access_page n pid)) = memory_size n \<and>
   (\<forall>i < length (memory n).
      page_id (memory (snd (access_page n pid)) ! i) = page_id (memory n ! i) \<and>
      data (memory (snd (access_page n pid)) ! i) = data (memory n ! i) \<and>
      (page_id (memory n ! i) \<noteq> pid \<longrightarrow>
         access_count (memory (snd (access_page n pid)) ! i) = access_count (memory n ! i)))"
  by (simp add: access_page_memory access_page_fields)

text \<open>
  A lookup of \<open>a\<close> in a node holding \<open>a\<close> and \<open>b\<close>: both records keep their id and data,
  and the counter of \<open>b\<close> stays 7.
\<close>

theorem access_page_frame_witness:
  "length (memory (snd (access_page
      \<lparr>node_id = 2,
         memory = [\<lparr>page_id = ''a'', data = ''x'', access_count = 0\<rparr>,
                   \<lparr>page_id = ''b'', data = ''y'', access_count = 7\<rparr>],
         memory_size = 3\<rparr> ''a''))) = 2 \<and>
   page_id (memory (snd (access_page
      \<lparr>node_id = 2,
         memory = [\<lparr>page_id = ''a'', data = ''x'', access_count = 0\<rparr>,
                   \<lparr>page_id = ''b'', data = ''y'', access_count = 7\<rparr>],
         memory_size = 3\<rparr> ''a'')) ! 0) = ''a'' \<and>
   data (memory (snd (access_page
      \<lparr>node_id = 2,
         memory = [\<lparr>page_id = ''a'', data = ''x'', access_count = 0\<rparr>,
                   \<lparr>page_id = ''b'', data = ''y'', access_count = 7\<rparr>],
         memory_size = 3\<rparr> ''a'')) ! 0) = ''x'' \<and>
   access_count (memory (snd (access_page
      \<lparr>node_id = 2,
         memory = [\<lparr>page_id = ''a'', data = ''x'', access_count = 0\<rparr>,
                   \<lparr>page_id = ''b'', data = ''y'', access_count = 7\<rparr>],
         memory_size = 3\<rparr> ''a'')) ! 1) = 7"
  using access_page_frame
      [of "\<lparr>node_id = 2,
              memory = [\<lparr>page_id = ''a'', data = ''x'', access_count = 0\<rparr>,
                        \<lparr>page_id = ''b'', data = ''y'', access_count = 7\<rparr>],
              memory_size = 3\<rparr>" "''a''"]
  by (simp add: all_less_Suc_2)

section \<open>Cluster properties\<close>

text \<open>
  Claim C1. For every sequence of allocations and lookups, in any interleaving and with
  any ids and data, against a cluster of three nodes that respect their capacities
  (as the three empty nodes of the program do): every call returns, every node still
  holds at most \<open>memory_size\<close> records, and no capacity has changed. The call sequence
  is arbitrary, so the bound holds after each of its prefixes, that is at all times.
\<close>

theorem capacity_invariant:
  assumes "length ns = 3" and "\<forall>n\<in>set ns. within_capacity n"
  shows "\<exists>ns'. run h ns cs = Inr ns' \<and> length ns' = 3 \<and>
           (\<forall>n\<in>set ns'. within_capacity n) \<and>
           map memory_size ns' = map memory_size ns"
  using assms
proof (induction cs arbitrary: ns)
  case Nil
  then show ?case by simp
next
  case (Cons c cs)
  show ?case
  proof (cases c)
    case (Allocate pid d)
    obtain ok ns1 where a: "allocate h ns pid d = Inr (ok, ns1)"
      using Cons.prems(1) by (simp add: allocate_Inr)
    have "length ns1 = 3" "\<forall>n\<in>set ns1. within_capacity n"
      using a Cons.prems allocate_length allocate_within by auto
    from Cons.IH [OF this] show ?thesis
      using a Allocate allocate_sizes [OF a] by simp
  next
    case (Access pid)
    have "length (snd (gui_access_page ns pid)) = 3"
      "\<forall>n\<in>set (snd (gui_access_page ns pid)). within_capacity n"
      using Cons.prems by (simp_all add: gui_access_page_length gui_access_page_within)
    from Cons.IH [OF this] show ?thesis
      using Access by (simp add: gui_access_page_sizes)
  qed
qed

text \<open>
  Four allocations that all route to node 1 of the program's cluster, with a lookup in
  between: the fourth allocation finds the node full, and every node stays within its
  capacity of 3.
\<close>

theorem capacity_invariant_witness:
  "length nodes_init = 3 \<and> list_all within_capacity nodes_init \<and>
   (\<exists>ns'. run sample_hash nodes_init
             [Allocate ''a'' ''1'', Allocate ''d'' ''2'', Access ''a'', Allocate ''g'' ''3'',
              Allocate ''j'' ''4''] = Inr ns' \<and>
          length ns' = 3 \<and> list_all within_capacity ns' \<and>
          map memory_size ns' = [3, 3, 3])"
proof -
  have l: "length nodes_init = 3"
    by (simp add: nodes_init_def)
  have c: "\<forall>n\<in>set nodes_init. within_capacity n"
    by (simp add: nodes_init_def within_capacity_def upt_rec)
  have m: "map memory_size nodes_init = [3, 3, 3]"
    by (simp add: nodes_init_def upt_rec)
  show ?thesis
    using capacity_invariant [OF l c, of sample_hash
        "[Allocate ''a'' ''1'', Allocate ''d'' ''2'', Access ''a'', Allocate ''g'' ''3'',
          Allocate ''j'' ''4'']"] l c m
    by (auto simp: list_all_iff)
qed

text \<open>
  Claim C6. For every id and data, a cluster-level allocation on the three-node cluster
  returns, and what it returns is the result of \<open>allocate_page\<close> on the one node at
  index \<open>hash(id) mod 3\<close>: every other node is the same afterwards, the allocation
  succeeds exactly when that node is below its capacity, and when it fails the whole
  cluster is unchanged.
\<close>

theorem allocate_only_routed_node:
  assumes "length ns = 3"
  shows "\<exists>ok ns'. allocate h ns pid d = Inr (ok, ns') \<and> length ns' = 3 \<and>
           allocate_page (ns ! node_idx h pid) pid d = (ok, ns' ! node_idx h pid) \<and>
           (\<forall>j<3. j \<noteq> node_idx h pid \<longrightarrow> ns' ! j = ns ! j) \<and>
           (ok \<longleftrightarrow> int (length (memory (ns ! node_idx h pid))) < memory_size (ns ! node_idx h pid)) \<and>
           (\<not> ok \<longrightarrow> ns' = ns)"
proof -
  let ?k = "node_idx h pid"
  let ?r = "allocate_page (ns ! ?k) pid d"
  have k: "?k < length ns"
    using assms node_idx_less [of h pid] by simp
  have "allocate h ns pid d = Inr (fst ?r, ns[?k := snd ?r])"
    using assms by (rule allocate_Inr)
  moreover have "?r = (fst ?r, ns[?k := snd ?r] ! ?k)"
    using k by simp
  moreover have "\<forall>j<3. j \<noteq> ?k \<longrightarrow> ns[?k := snd ?r] ! j = ns ! j"
    by simp
  moreover have "fst ?r \<longleftrightarrow> int (length (memory (ns ! ?k))) < memory_size (ns ! ?k)"
    by (simp add: allocate_page_def)
  moreover have "\<not> fst ?r \<longrightarrow> ns[?k := snd ?r] = ns"
    by (simp add: allocate_page_def)
  ultimately show ?thesis
    using assms by (intro exI [of _ "fst ?r"] exI [of _ "ns[?k := snd ?r]"]) simp
qed

text \<open>
  On the program's empty cluster the page \<open>a\<close> goes to node 1 and nodes 0 and 2 are
  untouched; on a cluster of three nodes of capacity 0 the allocation fails and the
  cluster is unchanged.
\<close>

theorem allocate_only_routed_node_witness:
  "length nodes_init = 3 \<and> node_idx sample_hash ''a'' = 1 \<and>
   (\<exists>ns'. allocate sample_hash nodes_init ''a'' ''x'' = Inr (True, ns') \<and>
          ns' ! 0 = nodes_init ! 0 \<and> ns' ! 2 = nodes_init ! 2) \<and>
   allocate sample_hash
     [\<lparr>node_id = 0, memory = [], memory_size = 0\<rparr>,
      \<lparr>node_id = 1, memory = [], memory_size = 0\<rparr>,
      \<lparr>node_id = 2, memory = [], memory_size = 0\<rparr>] ''a'' ''x'' =
     Inr (False,
       [\<lparr>node_id = 0, memory = [], memory_size = 0\<rparr>,
        \<lparr>node_id = 1, memory = [], memory_size = 0\<rparr>,
        \<lparr>node_id = 2, memory = [], memory_size = 0\<rparr>])"
proof -
  have l: "length nodes_init = 3"
    by (simp add: nodes_init_def)
  have i: "node_idx sample_hash ''a'' = 1"
    by (simp add: node_idx_def sample_hash_def)
  have r: "int (length (memory (nodes_init ! 1))) < memory_size (nodes_init ! 1)"
    by (simp add: nodes_init_def upt_rec)
  have "\<exists>ns'. allocate sample_hash nodes_init ''a'' ''x'' = Inr (True, ns') \<and>
          ns' ! 0 = nodes_init ! 0 \<and> ns' ! 2 = nodes_init ! 2"
    using allocate_only_routed_node [OF l, of sample_hash "''a''" "''x''"] r
    by (auto simp: i all_less_Suc_3)
  moreover have "allocate sample_hash
     [\<lparr>node_id = 0, memory = [], memory_size = 0\<rparr>,
      \<lparr>node_id = 1, memory = [], memory_size = 0\<rparr>,
      \<lparr>node_id = 2, memory = [], memory_size = 0\<rparr>] ''a'' ''x'' =
     Inr (False,
       [\<lparr>node_id = 0, memory = [], memory_size = 0\<rparr>,
        \<lparr>node_id = 1, memory = [], memory_size = 0\<rparr>,
        \<lparr>node_id = 2, memory = [], memory_size = 0\<rparr>])"
    using allocate_only_routed_node
      [of "[\<lparr>node_id = 0, memory = [], memory_size = 0\<rparr>,
            \<lparr>node_id = 1, memory = [], memory_size = 0\<rparr>,
            \<lparr>node_id = 2, memory = [], memory_size = 0\<rparr>]" sample_hash "''a''" "''x''"]
    by (auto simp: i)
  ultimately show ?thesis
    using l i by blast
qed

text \<open>
  Claim C7. For every id, the cluster-level lookup asks the nodes in list order. It
  reports a page fault if and only if every node's \<open>access_page\<close> returns no match, and
  then no node has changed. Otherwise, where \<open>n\<close> is the first node whose
  \<open>access_page\<close> returns data, it reports that data and that node's \<open>node_id\<close>; the
  nodes before \<open>n\<close> are unchanged, \<open>n\<close> is as its \<open>access_page\<close> left it, and the nodes
  after \<open>n\<close> were not asked.
\<close>

theorem gui_access_page_scan:
  "(fst (gui_access_page ns pid) = PageFault pid \<longleftrightarrow>
      (\<forall>n\<in>set ns. fst (access_page n pid) = None)) \<and>
   ((\<forall>n\<in>set ns. fst (access_page n pid) = None) \<longrightarrow>
      gui_access_page ns pid = (PageFault pid, ns)) \<and>
   (\<forall>pre n post d n'.
      ns = pre @ n # post \<and> (\<forall>m\<in>set pre. fst (access_page m pid) = None) \<and>
      access_page n pid = (Some d, n') \<longrightarrow>
      gui_access_page ns pid = (Found pid (node_id n) d, pre @ n' # post))"
proof (intro conjI allI impI)
  show "fst (gui_access_page ns pid) = PageFault pid \<longleftrightarrow>
      (\<forall>n\<in>set ns. fst (access_page n pid) = None)"
    by (induction ns) (auto split: prod.splits option.splits)
next
  assume "\<forall>n\<in>set ns. fst (access_page n pid) = None"
  then show "gui_access_page ns pid = (PageFault pid, ns)"
    by (induction ns) (auto dest: access_page_None)
next
  fix pre n post d n'
  assume "ns = pre @ n # post \<and> (\<forall>m\<in>set pre. fst (access_page m pid) = None) \<and>
      access_page n pid = (Some d, n')"
  then show "gui_access_page ns pid = (Found pid (node_id n) d, pre @ n' # post)"
    by (induction pre arbitrary: ns) (auto dest: access_page_None)
qed

text \<open>
  Three nodes: the first is empty, the second and the third both hold the id \<open>k\<close>. The
  lookup of \<open>k\<close> reports the second node's data and counts the access there only; the
  lookup of \<open>z\<close> is a page fault.
\<close>

theorem gui_access_page_scan_witness:
  "gui_access_page
     [\<lparr>node_id = 0, memory = [], memory_size = 3\<rparr>,
      \<lparr>node_id = 1, memory = [\<lparr>page_id = ''k'', data = ''v1'', access_count = 0\<rparr>],
         memory_size = 3\<rparr>,
      \<lparr>node_id = 2, memory = [\<lparr>page_id = ''k'', data = ''v2'', access_count = 0\<rparr>],
         memory_size = 3\<rparr>] ''k'' =
     (Found ''k'' 1 ''v1'',
      [\<lparr>node_id = 0, memory = [], memory_size = 3\<rparr>,
       \<lparr>node_id = 1, memory = [\<lparr>page_id = ''k'', data = ''v1'', access_count = 1\<rparr>],
          memory_size = 3\<rparr>,
       \<lparr>node_id = 2, memory = [\<lparr>page_id = ''k'', data = ''v2'', access_count = 0\<rparr>],
          memory_size = 3\<rparr>]) \<and>
   gui_access_page
     [\<lparr>node_id = 0, memory = [], memory_size = 3\<rparr>,
      \<lparr>node_id = 1, memory = [\<lparr>page_id = ''k'', data = ''v1'', access_count = 0\<rparr>],
         memory_size = 3\<rparr>,
      \<lparr>node_id = 2, memory = [\<lparr>page_id = ''k'', data = ''v2'', access_count = 0\<rparr>],
         memory_size = 3\<rparr>] ''z'' =
     (PageFault ''z'',
      [\<lparr>node_id = 0, memory = [], memory_size = 3\<rparr>,
       \<lparr>node_id = 1, memory = [\<lparr>page_id = ''k'', data = ''v1'', access_count = 0\<rparr>],
          memory_size = 3\<rparr>,
       \<lparr>node_id = 2, memory = [\<lparr>page_id = ''k'', data = ''v2'', access_count = 0\<rparr>],
          memory_size = 3\<rparr>])"
proof -
  let ?n0 = "\<lparr>node_id = 0, memory = [], memory_size = 3\<rparr>"
  let ?n1 = "\<lparr>node_id = 1, memory = [\<lparr>page_id = ''k'', data = ''v1'', access_count = 0\<rparr>],
                memory_size = 3\<rparr>"
  let ?n1' = "\<lparr>node_id = 1, memory = [\<lparr>page_id = ''k'', data = ''v1'', access_count = 1\<rparr>],
                 memory_size = 3\<rparr>"
  let ?n2 = "\<lparr>node_id = 2, memory = [\<lparr>page_id = ''k'', data = ''v2'', access_count = 0\<rparr>],
                memory_size = 3\<rparr>"
  have hit: "[?n0, ?n1, ?n2] = [?n0] @ ?n1 # [?n2] \<and>
      (\<forall>m\<in>set [?n0]. fst (access_page m ''k'') = None) \<and>
      access_page ?n1 ''k'' = (Some ''v1'', ?n1')"
    by (simp add: access_page_def)
  have miss: "\<forall>n\<in>set [?n0, ?n1, ?n2]. fst (access_page n ''z'') = None"
    by (simp add: access_page_def)
  have "gui_access_page [?n0, ?n1, ?n2] ''k'' = (Found ''k'' (node_id ?n1) ''v1'', [?n0] @ ?n1' # [?n2])"
    using gui_access_page_scan [of "[?n0, ?n1, ?n2]" "''k''"] hit by blast
  moreover have "gui_access_page [?n0, ?n1, ?n2] ''z'' = (PageFault ''z'', [?n0, ?n1, ?n2])"
    using gui_access_page_scan [of "[?n0, ?n1, ?n2]" "''z''"] miss by blast
  ultimately show ?thesis by simp
qed

text \<open>
  Claim C2, as the code has it. For every id and every batch of cluster allocations on
  the empty three-node cluster, the lookup returns the data passed to the allocation
  that succeeded first for that id, and reports a page fault exactly when no
  allocation of that id succeeded. When no id was allocated successfully twice, the
  first successful allocation is also the most recent one.
\<close>

theorem lookup_returns_first_allocated:
  assumes "length ns = 3" and "\<forall>n\<in>set ns. memory n = []"
  shows "\<exists>oks ns'. distribute h ns ps = Inr (oks, ns') \<and>
           found_data (fst (gui_access_page ns' pid)) = first_allocated pid ps oks \<and>
           (fst (gui_access_page ns' pid) = PageFault pid \<longleftrightarrow>
              pid \<notin> fst ` set (successes ps oks)) \<and>
           (distinct (map fst (successes ps oks)) \<longrightarrow>
              found_data (fst (gui_access_page ns' pid)) = latest_allocated pid ps oks)"
proof -
  obtain oks ns' where run: "distribute h ns ps = Inr (oks, ns')"
    using distribute_total [OF assms(1)] by blast
  have len: "length ns' = 3"
    using distribute_length [OF run] assms(1) by simp
  let ?S = "successes ps oks"
  have mem: "memory (ns' ! i) = map new_page (filter (\<lambda>(p, d). node_idx h p = i) ?S)"
    if "i < 3" for i
    using distribute_memory [OF run, of i] that assms by simp
  have "find (\<lambda>r. page_id r = pid) (all_records ns') =
          map_option new_page (find (\<lambda>(p, d). p = pid) ?S)"
    using node_idx_cases [of h pid]
    by (auto simp: all_records3 [OF len] mem find_append find_routed split: option.splits)
  then have data: "found_data (fst (gui_access_page ns' pid)) = first_allocated pid ps oks"
    by (simp add: gui_access_page_data first_allocated_def option.map_comp comp_def
        page_id_new_page)
  have "find (\<lambda>(p, d). p = pid) ?S = None \<longleftrightarrow> pid \<notin> fst ` set ?S"
    by (force simp: find_None_iff)
  then have "fst (gui_access_page ns' pid) = PageFault pid \<longleftrightarrow> pid \<notin> fst ` set ?S"
    using data by (simp add: gui_access_page_label first_allocated_def)
  with run data first_is_latest [of ps oks pid] show ?thesis by auto
qed

text \<open>
  The batch \<open>(a, x), (b, y), (a, z)\<close> on the program's cluster: all three allocations
  succeed and the lookup of \<open>a\<close> returns \<open>x\<close>. After the program's own ten pages, whose
  ids are distinct, the lookup of \<open>page_3\<close> returns \<open>data_3\<close>, the first and the latest.
\<close>

theorem lookup_returns_first_allocated_witness:
  "length nodes_init = 3 \<and> list_all (\<lambda>n. memory n = []) nodes_init \<and>
   (\<exists>ns'. distribute sample_hash nodes_init [(''a'', ''x''), (''b'', ''y''), (''a'', ''z'')] =
            Inr ([True, True, True], ns') \<and>
          found_data (fst (gui_access_page ns' ''a'')) = Some ''x'') \<and>
   (\<exists>ns'. distribute sample_hash nodes_init pages = Inr ([True, True, True, True, True, True, True, True, True, False], ns') \<and>
          found_data (fst (gui_access_page ns' ''page_3'')) = Some ''data_3'' \<and>
          latest_allocated ''page_3'' pages [True, True, True, True, True, True, True, True, True, False] = Some ''data_3'')"
proof -
  have l: "length nodes_init = 3"
    by (simp add: nodes_init_def)
  have e: "\<forall>n\<in>set nodes_init. memory n = []"
    by (simp add: nodes_init_def upt_rec)
  have o1: "map_sum id fst (distribute sample_hash nodes_init [(''a'', ''x''), (''b'', ''y''), (''a'', ''z'')]) =
      Inr [True, True, True]"
    by code_simp
  have f1: "first_allocated ''a'' [(''a'', ''x''), (''b'', ''y''), (''a'', ''z'')] [True, True, True] =
      Some ''x''"
    by code_simp
  have o2: "map_sum id fst (distribute sample_hash nodes_init pages) = Inr [True, True, True, True, True, True, True, True, True, False]"
    by code_simp
  have f2: "latest_allocated ''page_3'' pages [True, True, True, True, True, True, True, True, True, False] = Some ''data_3''"
    by code_simp
  have d2: "distinct (map fst (successes pages [True, True, True, True, True, True, True, True, True, False]))"
    by code_simp
  have "\<exists>ns'. distribute sample_hash nodes_init [(''a'', ''x''), (''b'', ''y''), (''a'', ''z'')] =
            Inr ([True, True, True], ns') \<and>
          found_data (fst (gui_access_page ns' ''a'')) = Some ''x''"
    using lookup_returns_first_allocated [OF l e, of sample_hash
        "[(''a'', ''x''), (''b'', ''y''), (''a'', ''z'')]" "''a''"] o1 f1
    by auto
  moreover have "\<exists>ns'. distribute sample_hash nodes_init pages = Inr ([True, True, True, True, True, True, True, True, True, False], ns') \<and>
          found_data (fst (gui_access_page ns' ''page_3'')) = Some ''data_3'' \<and>
          latest_allocated ''page_3'' pages [True, True, True, True, True, True, True, True, True, False] = Some ''data_3''"
    using lookup_returns_first_allocated [OF l e, of sample_hash pages "''page_3''"] o2 f2 d2
    by auto
  ultimately show ?thesis
    using l e by (simp add: list_all_iff)
qed

text \<open>
  Claim C2 as stated fails when an id is allocated twice: both allocations of \<open>a\<close>
  succeed, the most recent one passed \<open>y\<close>, and the lookup returns \<open>x\<close>.
\<close>

theorem lookup_latest_counterexample:
  "distribute sample_hash nodes_init [(''a'', ''x''), (''a'', ''y'')] =
     Inr ([True, True],
       [\<lparr>node_id = 0, memory = [], memory_size = 3\<rparr>,
        \<lparr>node_id = 1,
           memory = [\<lparr>page_id = ''a'', data = ''x'', access_count = 0\<rparr>,
                     \<lparr>page_id = ''a'', data = ''y'', access_count = 0\<rparr>],
           memory_size = 3\<rparr>,
        \<lparr>node_id = 2, memory = [], memory_size = 3\<rparr>]) \<and>
   latest_allocated ''a'' [(''a'', ''x''), (''a'', ''y'')] [True, True] = Some ''y'' \<and>
   fst (gui_access_page
       [\<lparr>node_id = 0, memory = [], memory_size = 3\<rparr>,
        \<lparr>node_id = 1,
           memory = [\<lparr>page_id = ''a'', data = ''x'', access_count = 0\<rparr>,
                     \<lparr>page_id = ''a'', data = ''y'', access_count = 0\<rparr>],
           memory_size = 3\<rparr>,
        \<lparr>node_id = 2, memory = [], memory_size = 3\<rparr>] ''a'') = Found ''a'' 1 ''x''"
  by (simp add: nodes_init_def allocate_def allocate_page_def node_idx_def sample_hash_def
      upt_rec latest_allocated_def successes_def access_page_def)

text \<open>
  Claim C3, as the code has it. After a batch of cluster allocations on a three-node
  cluster, the ids of the records in the cluster are, with multiplicity, the ids that
  were there before and the ids of the allocations that succeeded. So the ids are
  unique across the cluster whenever they were unique before and the batch submits
  each id once and none that is already stored; nothing in the allocation path looks
  for an id that is already stored.
\<close>

theorem ids_after_distribute:
  assumes "length ns = 3"
  shows "\<exists>oks ns'. distribute h ns ps = Inr (oks, ns') \<and>
           mset (all_ids ns') = mset (all_ids ns) + mset (map fst (successes ps oks)) \<and>
           (distinct (all_ids ns) \<and> distinct (map fst ps) \<and>
            set (all_ids ns) \<inter> fst ` set ps = {} \<longrightarrow> distinct (all_ids ns'))"
proof -
  obtain oks ns' where run: "distribute h ns ps = Inr (oks, ns')"
    using distribute_total [OF assms(1)] by blast
  have len: "length ns' = 3"
    using distribute_length [OF run] assms(1) by simp
  let ?S = "successes ps oks"
  let ?R = "\<lambda>i. filter (\<lambda>(p, d). node_idx h p = i) ?S"
  have mem: "memory (ns' ! i) = memory (ns ! i) @ map new_page (?R i)" if "i < 3" for i
    using distribute_memory [OF run, of i] that assms by simp
  have "mset (all_records ns') =
          mset (all_records ns) + image_mset new_page (mset (?R 0) + mset (?R 1) + mset (?R 2))"
    by (simp add: all_records3 [OF len] all_records3 [OF assms] mem)
  then have "mset (all_records ns') = mset (all_records ns) + mset (map new_page ?S)"
    by (simp only: mset_routed mset_map)
  then have "image_mset page_id (mset (all_records ns')) =
          image_mset page_id (mset (all_records ns) + mset (map new_page ?S))"
    by simp
  then have ids: "mset (all_ids ns') = mset (all_ids ns) + mset (map fst ?S)"
    by (simp add: all_ids_def multiset.map_comp comp_def page_id_new_page)
  have "distinct (all_ids ns')"
    if d: "distinct (all_ids ns)" "distinct (map fst ps)" "set (all_ids ns) \<inter> fst ` set ps = {}"
  proof -
    have "distinct (all_ids ns @ map fst ?S)"
      using d successes_distinct [of ps oks] successes_subset [of ps oks] by auto
    moreover have "mset (all_ids ns') = mset (all_ids ns @ map fst ?S)"
      using ids by simp
    ultimately show ?thesis
      using mset_eq_imp_distinct_iff by blast
  qed
  with run ids show ?thesis by blast
qed

text \<open>
  The program's run: ten pages with distinct ids on the empty cluster leave records
  with distinct ids.
\<close>

theorem ids_after_distribute_witness:
  "length nodes_init = 3 \<and> distinct (all_ids nodes_init) \<and> distinct (map fst pages) \<and>
   set (all_ids nodes_init) \<inter> fst ` set pages = {} \<and>
   (\<exists>oks ns'. distribute sample_hash nodes_init pages = Inr (oks, ns') \<and>
        distinct (all_ids ns'))"
proof -
  have l: "length nodes_init = 3"
    by (simp add: nodes_init_def)
  have a: "all_ids nodes_init = []"
    by (simp add: all_ids_def all_records_def nodes_init_def upt_rec)
  have d: "distinct (map fst pages)"
    by code_simp
  show ?thesis
    using ids_after_distribute [OF l, of sample_hash pages] l a d by auto
qed

text \<open>
  Claim C3 as stated fails: a second allocation of the id \<open>a\<close> succeeds and leaves two
  records with that id in node 1.
\<close>

theorem unique_ids_counterexample:
  "distribute sample_hash nodes_init [(''a'', ''x''), (''a'', ''y'')] =
     Inr ([True, True],
       [\<lparr>node_id = 0, memory = [], memory_size = 3\<rparr>,
        \<lparr>node_id = 1,
           memory = [\<lparr>page_id = ''a'', data = ''x'', access_count = 0\<rparr>,
                     \<lparr>page_id = ''a'', data = ''y'', access_count = 0\<rparr>],
           memory_size = 3\<rparr>,
        \<lparr>node_id = 2, memory = [], memory_size = 3\<rparr>]) \<and>
   all_ids
       [\<lparr>node_id = 0, memory = [], memory_size = 3\<rparr>,
        \<lparr>node_id = 1,
           memory = [\<lparr>page_id = ''a'', data = ''x'', access_count = 0\<rparr>,
                     \<lparr>page_id = ''a'', data = ''y'', access_count = 0\<rparr>],
           memory_size = 3\<rparr>,
        \<lparr>node_id = 2, memory = [], memory_size = 3\<rparr>] = [''a'', ''a''] \<and>
   \<not> distinct (all_ids
       [\<lparr>node_id = 0, memory = [], memory_size = 3\<rparr>,
        \<lparr>node_id = 1,
           memory = [\<lparr>page_id = ''a'', data = ''x'', access_count = 0\<rparr>,
                     \<lparr>page_id = ''a'', data = ''y'', access_count = 0\<rparr>],
           memory_size = 3\<rparr>,
        \<lparr>node_id = 2, memory = [], memory_size = 3\<rparr>])"
  by (simp add: nodes_init_def allocate_def allocate_page_def node_idx_def sample_hash_def
      upt_rec all_ids_def all_records_def)

text \<open>
  Claim C4. For every batch of cluster allocations on the empty three-node cluster,
  every record lies in the node that its id routes to, \<open>hash(id) mod 3\<close>, so no id
  appears in the records of two different nodes.
\<close>

theorem id_in_one_node:
  assumes "length ns = 3" and "\<forall>n\<in>set ns. memory n = []"
  shows "\<exists>oks ns'. distribute h ns ps = Inr (oks, ns') \<and> length ns' = 3 \<and>
           (\<forall>i<3. \<forall>r\<in>set (memory (ns' ! i)). node_idx h (page_id r) = i) \<and>
           (\<forall>i<3. \<forall>j<3. i \<noteq> j \<longrightarrow>
              page_id ` set (memory (ns' ! i)) \<inter> page_id ` set (memory (ns' ! j)) = {})"
proof -
  obtain oks ns' where run: "distribute h ns ps = Inr (oks, ns')"
    using distribute_total [OF assms(1)] by blast
  have len: "length ns' = 3"
    using distribute_length [OF run] assms(1) by simp
  have mem: "memory (ns' ! i) =
      map new_page (filter (\<lambda>(p, d). node_idx h p = i) (successes ps oks))" if "i < 3" for i
    using distribute_memory [OF run, of i] that assms by simp
  have placed: "\<forall>i<3. \<forall>r\<in>set (memory (ns' ! i)). node_idx h (page_id r) = i"
    by (auto simp: mem page_id_new_page)
  have "page_id ` set (memory (ns' ! i)) \<inter> page_id ` set (memory (ns' ! j)) = {}"
    if "i < 3" "j < 3" "i \<noteq> j" for i j
  proof -
    have "\<forall>r\<in>set (memory (ns' ! i)). node_idx h (page_id r) = i"
      using placed that(1) by blast
    moreover have "\<forall>r\<in>set (memory (ns' ! j)). node_idx h (page_id r) = j"
      using placed that(2) by blast
    ultimately show ?thesis
      using that(3) by auto
  qed
  with run len placed show ?thesis by blast
qed

text \<open>
  After the program's ten pages, nodes 0 and 1 share no id and every record of node 2
  routes to node 2.
\<close>

theorem id_in_one_node_witness:
  "length nodes_init = 3 \<and> list_all (\<lambda>n. memory n = []) nodes_init \<and>
   (\<exists>oks ns'. distribute sample_hash nodes_init pages = Inr (oks, ns') \<and> length ns' = 3 \<and>
        page_id ` set (memory (ns' ! 0)) \<inter> page_id ` set (memory (ns' ! 1)) = {} \<and>
        list_all (\<lambda>r. node_idx sample_hash (page_id r) = 2) (memory (ns' ! 2)))"
proof -
  have l: "length nodes_init = 3"
    by (simp add: nodes_init_def)
  have e: "\<forall>n\<in>set nodes_init. memory n = []"
    by (simp add: nodes_init_def upt_rec)
  obtain oks ns' where r: "distribute sample_hash nodes_init pages = Inr (oks, ns')"
    "length ns' = 3"
    "\<forall>i<3. \<forall>r\<in>set (memory (ns' ! i)). node_idx sample_hash (page_id r) = i"
    "\<forall>i<3. \<forall>j<3. i \<noteq> j \<longrightarrow>
       page_id ` set (memory (ns' ! i)) \<inter> page_id ` set (memory (ns' ! j)) = {}"
    using id_in_one_node [OF l e, of sample_hash pages] by blast
  have "page_id ` set (memory (ns' ! 0)) \<inter> page_id ` set (memory (ns' ! 1)) = {}"
    using r(4) by simp
  moreover have "list_all (\<lambda>r. node_idx sample_hash (page_id r) = 2) (memory (ns' ! 2))"
    using r(3) by (simp add: list_all_iff)
  ultimately show ?thesis
    using l e r(1,2) by (auto simp: list_all_iff)
qed

section \<open>Cipher round trip\<close>

text \<open>
  Claim C9, as the code has it. For every text \<open>t\<close> whose code points are all Unicode
  scalar values, and every single-byte key \<open>k\<close>, \<open>encrypt\<close> returns bytes and \<open>decrypt\<close>
  of them under the same key gives \<open>t\<close> back. A string that holds a surrogate code
  point has no UTF-8 encoding: on it \<open>encrypt\<close> raises \<open>UnicodeEncodeError\<close>.
\<close>

theorem cipher_round_trip:
  "((\<forall>c\<in>set t. unicode_scalar c) \<longrightarrow>
      (\<exists>bs. encrypt t k = Inr bs \<and> decrypt bs k = Inr t)) \<and>
   (\<not> (\<forall>c\<in>set t. unicode_scalar c) \<longrightarrow> encrypt t k = Inl UnicodeEncodeError)"
proof (intro conjI impI)
  assume "\<forall>c\<in>set t. unicode_scalar c"
  then obtain bs where bs: "encode t = Inr bs"
    using encode_scalar [of t] by blast
  then have "decode bs = Inr t"
    by (rule decode_encode)
  then have "decrypt (map (\<lambda>b. b XOR k) bs) k = Inr t"
    by (simp only: decrypt_def xor_twice)
  moreover have "encrypt t k = Inr (map (\<lambda>b. b XOR k) bs)"
    by (simp add: encrypt_def bs)
  ultimately show "\<exists>bs. encrypt t k = Inr bs \<and> decrypt bs k = Inr t"
    by blast
next
  assume "\<not> (\<forall>c\<in>set t. unicode_scalar c)"
  then have "\<nexists>bs. encode t = Inr bs"
    using encode_scalar [of t] by simp
  then obtain e where "encode t = Inl e"
    by (cases "encode t") auto
  then show "encrypt t k = Inl UnicodeEncodeError"
    using encode_error [of t e] by (simp add: encrypt_def)
qed

text \<open>
  The text \<open>H\<close>, e acute, euro sign, grinning face (one, two, three and four bytes in
  UTF-8) under the program's key \<open>0x55\<close>.
\<close>

theorem cipher_round_trip_witness:
  "list_all unicode_scalar [0x48, 0xE9, 0x20AC, 0x1F600] \<and>
   encrypt [0x48, 0xE9, 0x20AC, 0x1F600] 0x55 = Inr [29, 150, 252, 183, 215, 249, 165, 202, 205, 213] \<and>
   decrypt [29, 150, 252, 183, 215, 249, 165, 202, 205, 213] 0x55 = Inr [0x48, 0xE9, 0x20AC, 0x1F600]"
proof -
  have s: "\<forall>c\<in>set [0x48, 0xE9, 0x20AC, 0x1F600]. unicode_scalar c"
    by (simp add: unicode_scalar_def)
  have e: "encrypt [0x48, 0xE9, 0x20AC, 0x1F600] 0x55 = Inr [29, 150, 252, 183, 215, 249, 165, 202, 205, 213]"
    by (simp add: encrypt_def utf8_encode_char_def)
  have "decrypt [29, 150, 252, 183, 215, 249, 165, 202, 205, 213] 0x55 = Inr [0x48, 0xE9, 0x20AC, 0x1F600]"
    using cipher_round_trip [of "[0x48, 0xE9, 0x20AC, 0x1F600]" "0x55"] s e by auto
  then show ?thesis
    using s e by (simp add: list_all_iff)
qed

text \<open>
  Claim C9 as stated fails for a string that holds a lone surrogate, here \<open>U+D800\<close>:
  \<open>encrypt\<close> raises, so there is nothing to decrypt.
\<close>

theorem cipher_surrogate_counterexample:
  "encrypt [0xD800] 0x55 = Inl UnicodeEncodeError"
  by (simp add: encrypt_def utf8_encode_char_def)

end
